theory Spec2Isabelle
  imports Main "HOL-Library.Word"
begin

section \<open>JavaScript strings and values\<close>

text \<open>
  A JavaScript string is a sequence of UTF-16 code units; \<open>s.length\<close> counts code
  units, so it is the length of the list. \<open>js\<close> writes an ASCII literal as such a string.
\<close>

type_synonym jschar = "16 word"
type_synonym jsstring = "jschar list"

definition js :: "string \<Rightarrow> jsstring" where
  "js s = map (\<lambda>c. of_nat (of_char c)) s"

text \<open>
  The value found in \<open>req.body.message\<close>: the body parsers can deliver any JSON value,
  or nothing at all. Arrays and objects are collapsed into \<open>JObject\<close>.
\<close>

datatype jsvalue = JUndefined | JNull | JBool bool | JNum int | JStr jsstring | JObject

datatype jstype = TUndefined | TObject | TBoolean | TNumber | TString

fun typeof :: "jsvalue \<Rightarrow> jstype" where
  "typeof JUndefined = TUndefined"
| "typeof JNull = TObject"
| "typeof (JBool b) = TBoolean"
| "typeof (JNum n) = TNumber"
| "typeof (JStr s) = TString"
| "typeof JObject = TObject"

text \<open>\<open>!v\<close> is true exactly for the falsy values.\<close>

fun falsy :: "jsvalue \<Rightarrow> bool" where
  "falsy JUndefined = True"
| "falsy JNull = True"
| "falsy (JBool b) = (\<not> b)"
| "falsy (JNum n) = (n = 0)"
| "falsy (JStr s) = (s = [])"
| "falsy JObject = False"

subsection \<open>String.prototype.trim and substring\<close>

text \<open>
  \<open>trim\<close> removes the ECMAScript WhiteSpace and LineTerminator code points from both
  ends: TAB, LF, VT, FF, CR, SP, NBSP, U+1680, U+2000..U+200A, U+2028, U+2029, U+202F,
  U+205F, U+3000 and U+FEFF.
\<close>

definition isWhiteSpace :: "jschar \<Rightarrow> bool" where
  "isWhiteSpace c \<longleftrightarrow>
     c = 0x09 \<or> c = 0x0A \<or> c = 0x0B \<or> c = 0x0C \<or> c = 0x0D \<or> c = 0x20 \<or> c = 0xA0 \<or>
     c = 0x1680 \<or> (0x2000 \<le> c \<and> c \<le> 0x200A) \<or> c = 0x2028 \<or> c = 0x2029 \<or>
     c = 0x202F \<or> c = 0x205F \<or> c = 0x3000 \<or> c = 0xFEFF"

definition trim :: "jsstring \<Rightarrow> jsstring" where
  "trim s = rev (dropWhile isWhiteSpace (rev (dropWhile isWhiteSpace s)))"

text \<open>\<open>s.substring(0, n)\<close> for a non-negative \<open>n\<close>.\<close>

definition substring0 :: "nat \<Rightarrow> jsstring \<Rightarrow> jsstring" where
  "substring0 n s = take n s"

section \<open>utils/sanitize.ts\<close>

text \<open>
  \<open>validator.escape\<close> (validator.js 13) is a chain of global single-character
  replacements, in this order: \<open>&\<close>, \<open>"\<close>, \<open>'\<close>, \<open><\<close>, \<open>>\<close>, \<open>/\<close>, backslash, backtick.
  \<open>replaceAll c r s\<close> is \<open>s.replace(/c/g, r)\<close> for a single character \<open>c\<close>.
\<close>

definition replaceAll :: "jschar \<Rightarrow> jsstring \<Rightarrow> jsstring \<Rightarrow> jsstring" where
  "replaceAll c r s = concat (map (\<lambda>x. if x = c then r else [x]) s)"

definition escape :: "jsstring \<Rightarrow> jsstring" where
  "escape str =
     replaceAll 0x60 (js ''&#96;'')
       (replaceAll 0x5C (js ''&#x5C;'')
         (replaceAll 0x2F (js ''&#x2F;'')
           (replaceAll 0x3E (js ''&gt;'')
             (replaceAll 0x3C (js ''&lt;'')
               (replaceAll 0x27 (js ''&#x27;'')
                 (replaceAll 0x22 (js ''&quot;'')
                   (replaceAll 0x26 (js ''&amp;'') str)))))))"

definition sanitizeInput :: "jsstring \<Rightarrow> jsstring" where
  "sanitizeInput input =
     (let sanitized = trim input;
          sanitized = escape sanitized
      in if length sanitized > 10000 then substring0 10000 sanitized else sanitized)"

definition validateMessage :: "jsvalue \<Rightarrow> bool" where
  "validateMessage message =
     (if falsy message \<or> typeof message \<noteq> TString then False
      else case message of
        JStr s \<Rightarrow>
          if length (trim s) = 0 then False
          else if length s > 10000 then False
          else True
      | _ \<Rightarrow> False)"

text \<open>
  The encoding of one character that the replacement chain amounts to; used to describe
  the result of \<open>escape\<close>, not to define it.
\<close>

definition entity :: "jschar \<Rightarrow> jsstring" where
  "entity c =
     (if c = 0x26 then js ''&amp;''
      else if c = 0x22 then js ''&quot;''
      else if c = 0x27 then js ''&#x27;''
      else if c = 0x3C then js ''&lt;''
      else if c = 0x3E then js ''&gt;''
      else if c = 0x2F then js ''&#x2F;''
      else if c = 0x5C then js ''&#x5C;''
      else if c = 0x60 then js ''&#96;''
      else [c])"

section \<open>utils/fileManager.ts\<close>

subsection \<open>isValidMessageId\<close>

text \<open>
  The regular expression
  \<^verbatim>\<open>/^[0-9a-f]{8}-[0-9a-f]{4}-4[0-9a-f]{3}-[89ab][0-9a-f]{3}-[0-9a-f]{12}$/i\<close>
  is a sequence of atoms, each repeated a fixed number of times, anchored at both ends
  (\<open>$\<close> without the \<open>m\<close> flag is the end of the input). Under the \<open>i\<close> flag a class
  matches a character when their upper-case forms agree, so \<open>[0-9a-f]\<close> also matches
  \<open>A\<close>..\<open>F\<close> and \<open>[89ab]\<close> also \<open>A\<close> and \<open>B\<close>; no character outside ASCII is
  canonicalised to an ASCII one.
\<close>

datatype atom = Hex | Variant | Lit jschar

fun atom_match :: "atom \<Rightarrow> jschar \<Rightarrow> bool" where
  "atom_match Hex c \<longleftrightarrow>
     (0x30 \<le> c \<and> c \<le> 0x39) \<or> (0x61 \<le> c \<and> c \<le> 0x66) \<or> (0x41 \<le> c \<and> c \<le> 0x46)"
| "atom_match Variant c \<longleftrightarrow>
     c = 0x38 \<or> c = 0x39 \<or> c = 0x61 \<or> c = 0x62 \<or> c = 0x41 \<or> c = 0x42"
| "atom_match (Lit l) c \<longleftrightarrow> c = l"

fun regex_test :: "(atom \<times> nat) list \<Rightarrow> jsstring \<Rightarrow> bool" where
  "regex_test [] s \<longleftrightarrow> s = []"
| "regex_test ((a, n) # ps) s \<longleftrightarrow>
     n \<le> length s \<and> list_all (atom_match a) (take n s) \<and> regex_test ps (drop n s)"

definition uuidRegex :: "(atom \<times> nat) list" where
  "uuidRegex =
     [(Hex, 8), (Lit 0x2D, 1), (Hex, 4), (Lit 0x2D, 1), (Lit 0x34, 1), (Hex, 3),
      (Lit 0x2D, 1), (Variant, 1), (Hex, 3), (Lit 0x2D, 1), (Hex, 12)]"

definition isValidMessageId :: "jsstring \<Rightarrow> bool" where
  "isValidMessageId messageId = regex_test uuidRegex messageId"

subsection \<open>path.join (POSIX)\<close>

text \<open>
  Node's \<open>path.join\<close> concatenates its non-empty arguments with \<open>/\<close> and normalises the
  result. Normalisation works segment by segment: empty segments and \<open>.\<close> are dropped,
  \<open>..\<close> removes the segment before it when there is one that is not itself \<open>..\<close>, and is
  kept only in a relative path.
\<close>

fun splitOn :: "'a \<Rightarrow> 'a list \<Rightarrow> 'a list list" where
  "splitOn sep [] = [[]]"
| "splitOn sep (x # xs) =
     (if x = sep then [] # splitOn sep xs
      else case splitOn sep xs of [] \<Rightarrow> [[x]] | h # t \<Rightarrow> (x # h) # t)"

fun joinSegments :: "jsstring list \<Rightarrow> jsstring" where
  "joinSegments [] = []"
| "joinSegments [x] = x"
| "joinSegments (x # y # ys) = x @ 0x2F # joinSegments (y # ys)"

definition normalizeSegment :: "bool \<Rightarrow> jsstring list \<Rightarrow> jsstring \<Rightarrow> jsstring list" where
  "normalizeSegment allowAboveRoot res seg =
     (if seg = [] \<or> seg = js ''.'' then res
      else if seg = js ''..'' then
        (if res \<noteq> [] \<and> last res \<noteq> js ''..'' then butlast res
         else if allowAboveRoot then res @ [js ''..'']
         else res)
      else res @ [seg])"

definition normalizeString :: "jsstring \<Rightarrow> bool \<Rightarrow> jsstring list" where
  "normalizeString path allowAboveRoot =
     foldl (normalizeSegment allowAboveRoot) [] (splitOn 0x2F path)"

definition path_normalize :: "jsstring \<Rightarrow> jsstring" where
  "path_normalize path =
     (if path = [] then js ''.''
      else
        let isAbsolute = (hd path = 0x2F);
            trailingSeparator = (last path = 0x2F);
            p = joinSegments (normalizeString path (\<not> isAbsolute))
        in if p = [] then
             (if isAbsolute then js ''/'' else if trailingSeparator then js ''./'' else js ''.'')
           else
             let p = (if trailingSeparator then p @ js ''/'' else p)
             in if isAbsolute then 0x2F # p else p)"

definition path_join :: "jsstring list \<Rightarrow> jsstring" where
  "path_join args =
     (let joined = joinSegments (filter (\<lambda>a. a \<noteq> []) args)
      in if joined = [] then js ''.'' else path_normalize joined)"

text \<open>
  The segment lists that normalisation produces: no empty segment and no \<open>.\<close>, and \<open>..\<close>
  only at the front, and only where it may climb above the root.
\<close>

inductive normalized :: "bool \<Rightarrow> jsstring list \<Rightarrow> bool" for allowAboveRoot where
  start: "normalized allowAboveRoot []"
| above: "allowAboveRoot \<Longrightarrow> normalized allowAboveRoot res \<Longrightarrow> res = [] \<or> last res = js ''..''
    \<Longrightarrow> normalized allowAboveRoot (res @ [js ''..''])"
| below: "normalized allowAboveRoot res \<Longrightarrow> seg \<noteq> [] \<Longrightarrow> seg \<noteq> js ''.'' \<Longrightarrow> seg \<noteq> js ''..''
    \<Longrightarrow> normalized allowAboveRoot (res @ [seg])"

subsection \<open>The backing medium: fs/promises\<close>

text \<open>
  The file system is a map from paths to file contents, together with the calls it rejects
  (permission denied and the like) and the calls made so far. It is modelled at the level
  of text: \<open>files m p\<close> is the string that \<open>fs.readFile(p, "utf-8")\<close> decodes from the
  file. Writing a string as UTF-8 encodes every unpaired surrogate code unit as U+FFFD
  (bytes EF BF BD) and every other code point faithfully, so what a later read decodes is
  \<open>utf8_text\<close> of what was written.
\<close>

definition isHighSurrogate :: "jschar \<Rightarrow> bool" where
  "isHighSurrogate c \<longleftrightarrow> 0xD800 \<le> c \<and> c \<le> 0xDBFF"

definition isLowSurrogate :: "jschar \<Rightarrow> bool" where
  "isLowSurrogate c \<longleftrightarrow> 0xDC00 \<le> c \<and> c \<le> 0xDFFF"

fun utf8_text :: "jsstring \<Rightarrow> jsstring" where
  "utf8_text [] = []"
| "utf8_text [c] = (if isHighSurrogate c \<or> isLowSurrogate c then [0xFFFD] else [c])"
| "utf8_text (c # d # cs) =
     (if isHighSurrogate c \<and> isLowSurrogate d then c # d # utf8_text cs
      else if isHighSurrogate c \<or> isLowSurrogate c then 0xFFFD # utf8_text (d # cs)
      else c # utf8_text (d # cs))"

fun isWellFormed :: "jsstring \<Rightarrow> bool" where
  "isWellFormed [] = True"
| "isWellFormed [c] = (\<not> isHighSurrogate c \<and> \<not> isLowSurrogate c)"
| "isWellFormed (c # d # cs) =
     (if isHighSurrogate c \<and> isLowSurrogate d then isWellFormed cs
      else \<not> isHighSurrogate c \<and> \<not> isLowSurrogate c \<and> isWellFormed (d # cs))"

datatype fs_call =
  Access jsstring | ReadFile jsstring | Unlink jsstring | WriteFile jsstring jsstring

datatype errno = ENOENT | EACCES

record medium =
  files :: "jsstring \<rightharpoonup> jsstring"
  denied :: "fs_call set"
  trace :: "fs_call list"

definition record_call :: "fs_call \<Rightarrow> medium \<Rightarrow> medium" where
  "record_call c m = m\<lparr>trace := trace m @ [c]\<rparr>"

text \<open>
  Each call returns the settled promise (\<open>Inl\<close> a rejection, \<open>Inr\<close> the value) and the
  medium after it. \<open>fs.access\<close> is called without a mode, so it tests existence only.
\<close>

definition fs_access :: "jsstring \<Rightarrow> medium \<Rightarrow> (errno + unit) \<times> medium" where
  "fs_access p m =
     (if Access p \<in> denied m then Inl EACCES
      else if files m p = None then Inl ENOENT
      else Inr (),
      record_call (Access p) m)"

definition fs_readFile :: "jsstring \<Rightarrow> medium \<Rightarrow> (errno + jsstring) \<times> medium" where
  "fs_readFile p m =
     (if ReadFile p \<in> denied m then Inl EACCES
      else case files m p of None \<Rightarrow> Inl ENOENT | Some c \<Rightarrow> Inr c,
      record_call (ReadFile p) m)"

definition fs_unlink :: "jsstring \<Rightarrow> medium \<Rightarrow> (errno + unit) \<times> medium" where
  "fs_unlink p m =
     (if Unlink p \<in> denied m then (Inl EACCES, record_call (Unlink p) m)
      else if files m p = None then (Inl ENOENT, record_call (Unlink p) m)
      else (Inr (), (record_call (Unlink p) m)\<lparr>files := (files m)(p := None)\<rparr>))"

definition fs_writeFile :: "jsstring \<Rightarrow> jsstring \<Rightarrow> medium \<Rightarrow> (errno + unit) \<times> medium" where
  "fs_writeFile p data m =
     (if WriteFile p data \<in> denied m then (Inl EACCES, record_call (WriteFile p data) m)
      else (Inr (),
            (record_call (WriteFile p data) m)\<lparr>files := (files m)(p \<mapsto> utf8_text data)\<rparr>))"

subsection \<open>saveMessage and readAndDeleteMessage\<close>

text \<open>
  \<open>__dirname\<close> and the identifier drawn by \<open>uuidv4()\<close> are inputs of the model:
  \<open>dirname\<close> and \<open>uuid\<close>.
\<close>

definition messagesDir :: "jsstring \<Rightarrow> jsstring" where
  "messagesDir dirname = path_join [dirname, js ''../../messages'']"

definition filePath :: "jsstring \<Rightarrow> jsstring \<Rightarrow> jsstring" where
  "filePath dirname messageId = path_join [messagesDir dirname, messageId @ js ''.txt'']"

definition saveMessage ::
  "jsstring \<Rightarrow> jsstring \<Rightarrow> jsstring \<Rightarrow> medium \<Rightarrow> (errno + jsstring) \<times> medium" where
  "saveMessage dirname uuid content m =
     (let messageId = uuid;
          fp = filePath dirname messageId
      in case fs_writeFile fp content m of
           (Inl e, m') \<Rightarrow> (Inl e, m')
         | (Inr u, m') \<Rightarrow> (Inr messageId, m'))"

text \<open>
  The three awaited calls sit in one \<open>try\<close> block whose \<open>catch\<close> returns \<open>null\<close>
  (\<open>None\<close>), whatever was thrown.
\<close>

definition readAndDeleteMessage ::
  "jsstring \<Rightarrow> jsstring \<Rightarrow> medium \<Rightarrow> (errno + jsstring option) \<times> medium" where
  "readAndDeleteMessage dirname messageId m =
     (let fp = filePath dirname messageId
      in case fs_access fp m of
           (Inl e, m1) \<Rightarrow> (Inr None, m1)
         | (Inr u, m1) \<Rightarrow>
             (case fs_readFile fp m1 of
                (Inl e, m2) \<Rightarrow> (Inr None, m2)
              | (Inr content, m2) \<Rightarrow>
                  (case fs_unlink fp m2 of
                     (Inl e, m3) \<Rightarrow> (Inr None, m3)
                   | (Inr u', m3) \<Rightarrow> (Inr (Some content), m3))))"

section \<open>routes/index.ts\<close>

text \<open>
  The two handlers, as functions from the request data and the medium to the response and
  the medium afterwards. The link rendered on success embeds the message identifier; the
  protocol and the host of the request are left out. The argument \<open>body\<close> of
  \<open>post_create\<close> is \<open>req.body\<close>: \<open>None\<close> when no parser has set it, in which case the
  destructuring \<open>const { message } = req.body\<close> throws inside the \<open>try\<close> block and the
  handler answers with status 500; otherwise \<open>Some message\<close> with the value of its field
  \<open>message\<close>, \<open>JUndefined\<close> when the body has no such field.
\<close>

datatype response =
  Render_success jsstring | Render_message "jsstring option" | Send nat string

definition post_create ::
  "jsstring \<Rightarrow> jsstring \<Rightarrow> jsvalue option \<Rightarrow> medium \<Rightarrow> response \<times> medium" where
  "post_create dirname uuid body m =
     (case body of
        None \<Rightarrow> (Send 500 ''Internal server error'', m)
      | Some message \<Rightarrow>
          if \<not> validateMessage message then (Send 400 ''Invalid message'', m)
          else case message of
            JStr s \<Rightarrow>
              (let sanitizedMessage = sanitizeInput s
               in case saveMessage dirname uuid sanitizedMessage m of
                    (Inl e, m') \<Rightarrow> (Send 500 ''Internal server error'', m')
                  | (Inr messageId, m') \<Rightarrow> (Render_success messageId, m'))
          | _ \<Rightarrow> (Send 500 ''Internal server error'', m))"

definition get_message :: "jsstring \<Rightarrow> jsstring \<Rightarrow> medium \<Rightarrow> response \<times> medium" where
  "get_message dirname ident m =
     (if \<not> isValidMessageId ident then (Render_message None, m)
      else case readAndDeleteMessage dirname ident m of
             (Inl e, m') \<Rightarrow> (Send 500 ''Internal server error'', m')
           | (Inr message, m') \<Rightarrow> (Render_message message, m'))"

text \<open>The calls made between two states of the medium, and the data handed to writes.\<close>

definition calls_since :: "medium \<Rightarrow> medium \<Rightarrow> fs_call list" where
  "calls_since m m' = drop (length (trace m)) (trace m')"

fun written :: "fs_call list \<Rightarrow> jsstring list" where
  "written [] = []"
| "written (WriteFile p data # cs) = data # written cs"
| "written (c # cs) = written cs"

section \<open>Interleaved invocations of readAndDeleteMessage\<close>

text \<open>
  An invocation of the async function runs until its next \<open>await\<close> and is resumed when
  the awaited call has settled, so invocations interleave at the three awaits, and each
  file-system call is atomic. The stage of an invocation says which call it issues next;
  \<open>resume\<close> performs that call and moves on as the function body does.
\<close>

datatype stage = Called | Accessed | Read jsstring | Settled "jsstring option"

fun resume :: "jsstring \<Rightarrow> stage \<Rightarrow> medium \<Rightarrow> stage \<times> medium" where
  "resume fp Called m =
     (case fs_access fp m of
        (Inl e, m') \<Rightarrow> (Settled None, m')
      | (Inr u, m') \<Rightarrow> (Accessed, m'))"
| "resume fp Accessed m =
     (case fs_readFile fp m of
        (Inl e, m') \<Rightarrow> (Settled None, m')
      | (Inr content, m') \<Rightarrow> (Read content, m'))"
| "resume fp (Read content) m =
     (case fs_unlink fp m of
        (Inl e, m') \<Rightarrow> (Settled None, m')
      | (Inr u, m') \<Rightarrow> (Settled (Some content), m'))"
| "resume fp (Settled r) m = (Settled r, m)"

text \<open>
  The server: the invocations in flight, each with its \<open>messageId\<close>, and the medium. A
  schedule names, step by step, the invocation that is resumed next.
\<close>

type_synonym server = "(jsstring \<times> stage) list \<times> medium"

definition spawn :: "jsstring list \<Rightarrow> medium \<Rightarrow> server" where
  "spawn ids m = (map (\<lambda>i. (i, Called)) ids, m)"

definition resume_nth :: "jsstring \<Rightarrow> nat \<Rightarrow> server \<Rightarrow> server" where
  "resume_nth dirname i sv =
     (case sv of (invs, m) \<Rightarrow>
        if i < length invs then
          (case invs ! i of (messageId, st) \<Rightarrow>
             (case resume (filePath dirname messageId) st m of
                (st', m') \<Rightarrow> (invs[i := (messageId, st')], m')))
        else sv)"

fun run :: "jsstring \<Rightarrow> nat list \<Rightarrow> server \<Rightarrow> server" where
  "run dirname [] sv = sv"
| "run dirname (i # sched) sv = run dirname sched (resume_nth dirname i sv)"

fun delivered :: "stage \<Rightarrow> bool" where
  "delivered (Settled (Some c)) = True"
| "delivered st = False"

definition deliveries :: "jsstring \<Rightarrow> server \<Rightarrow> nat" where
  "deliveries messageId sv =
     length (filter (\<lambda>inv. fst inv = messageId \<and> delivered (snd inv)) (fst sv))"

text \<open>The same count by file: invocations whose identifier addresses the path \<open>fp\<close>.\<close>

definition deliveries_of_file :: "jsstring \<Rightarrow> jsstring \<Rightarrow> (jsstring \<times> stage) list \<Rightarrow> nat" where
  "deliveries_of_file dirname fp invs =
     length (filter (\<lambda>inv. filePath dirname (fst inv) = fp \<and> delivered (snd inv)) invs)"

definition live :: "jsstring \<Rightarrow> medium \<Rightarrow> nat" where
  "live fp m = (if files m fp = None then 0 else 1)"

section \<open>Sequential histories of store operations\<close>





subsection \<open>Invariants of the interleaved runs\<close>

text \<open>What an invocation holds or has delivered is what its file held at the start.\<close>

definition content_inv :: "jsstring \<Rightarrow> medium \<Rightarrow> server \<Rightarrow> bool" where
  "content_inv dirname m0 sv \<longleftrightarrow>
     (\<forall>p c. files (snd sv) p = Some c \<longrightarrow> files m0 p = Some c) \<and>
     (\<forall>inv\<in>set (fst sv). \<forall>c. snd inv = Read c \<or> snd inv = Settled (Some c) \<longrightarrow>
        files m0 (filePath dirname (fst inv)) = Some c)"

text \<open>
  While the file of an entry is there, no invocation that addresses it has settled; the
  medium never changes the calls it rejects.
\<close>

definition pending_inv :: "jsstring \<Rightarrow> jsstring \<Rightarrow> medium \<Rightarrow> server \<Rightarrow> bool" where
  "pending_inv dirname fp m0 sv \<longleftrightarrow>
     denied (snd sv) = denied m0 \<and>
     (files (snd sv) fp \<noteq> None \<longrightarrow>
        (\<forall>inv\<in>set (fst sv). filePath dirname (fst inv) = fp \<longrightarrow> (\<forall>r. snd inv \<noteq> Settled r)))"

section \<open>Concrete inputs\<close>

text \<open>
  The directory of the compiled \<open>fileManager.js\<close> in a deployment, an identifier as
  \<open>uuidv4()\<close> draws them, and a medium that holds no file and rejects no call.
\<close>

definition app_dirname :: jsstring where
  "app_dirname = js ''/app/dist/utils''"

definition some_uuid :: jsstring where
  "some_uuid = js ''123e4567-e89b-42d3-a456-426614174000''"

definition empty_medium :: medium where
  "empty_medium = \<lparr>files = Map.empty, denied = {}, trace = []\<rparr>"


definition some_file :: jsstring where
  "some_file = js ''/app/messages/123e4567-e89b-42d3-a456-426614174000.txt''"

definition live_medium :: medium where
  "live_medium = \<lparr>files = [some_file \<mapsto> js ''secret''], denied = {}, trace = []\<rparr>"

definition locked_medium :: medium where
  "locked_medium =
     \<lparr>files = [some_file \<mapsto> js ''secret''], denied = {Unlink some_file}, trace = []\<rparr>"

definition unreadable_medium :: medium where
  "unreadable_medium = \<lparr>files = Map.empty, denied = {ReadFile some_file}, trace = []\<rparr>"

definition notes_medium :: medium where
  "notes_medium = \<lparr>files = [js ''/app/notes.txt'' \<mapsto> js ''secret''], denied = {}, trace = []\<rparr>"

section \<open>Properties of the sanitizer\<close>

lemma replaceAll_append: "replaceAll c r (a @ b) = replaceAll c r a @ replaceAll c r b"
  by (simp add: replaceAll_def)

lemma replaceAll_concat_map:
  "replaceAll c r (concat (map f s)) = concat (map (\<lambda>x. replaceAll c r (f x)) s)"
  by (induction s) (simp_all add: replaceAll_append, simp add: replaceAll_def)

lemma escape_singleton: "escape [x] = entity x"
  by (simp add: escape_def replaceAll_def entity_def js_def)

lemma escape_concat_map: "escape (concat (map f s)) = concat (map (\<lambda>x. escape (f x)) s)"
  by (simp add: escape_def replaceAll_concat_map)

text \<open>
  The chain of replacements never rewrites what an earlier replacement produced, so it
  encodes each character of its input on its own.
\<close>

lemma escape_entity: "escape s = concat (map entity s)"
proof -
  have "escape s = escape (concat (map (\<lambda>x. [x]) s))" by simp
  also have "\<dots> = concat (map (\<lambda>x. escape [x]) s)" by (rule escape_concat_map)
  finally show ?thesis by (simp add: escape_singleton)
qed

lemma sanitizeInput_eq: "sanitizeInput input = take 10000 (concat (map entity (trim input)))"
  by (simp add: sanitizeInput_def substring0_def escape_entity Let_def)

lemma entity_no_markup:
  "0x3C \<notin> set (entity c)" "0x3E \<notin> set (entity c)"
  "0x22 \<notin> set (entity c)" "0x27 \<notin> set (entity c)"
  by (simp_all add: entity_def js_def)

lemma sanitizeInput_set: "x \<in> set (sanitizeInput input) \<Longrightarrow> \<exists>c. x \<in> set (entity c)"
  by (auto simp: sanitizeInput_eq dest!: in_set_takeD)

lemma sanitizeInput_length: "length (sanitizeInput input) \<le> 10000"
  by (simp add: sanitizeInput_eq)

lemma dropWhile_replicate_keep: "\<not> P c \<Longrightarrow> dropWhile P (replicate n c) = replicate n c"
  by (cases n) simp_all

lemma trim_replicate: "\<not> isWhiteSpace c \<Longrightarrow> trim (replicate n c) = replicate n c"
  by (simp add: trim_def dropWhile_replicate_keep)

lemma not_isWhiteSpace_letter: "\<not> isWhiteSpace 0x61" "\<not> isWhiteSpace 0x26"
  by (simp_all add: isWhiteSpace_def)

lemma length_concat_replicate: "length (concat (replicate n xs)) = n * length xs"
  by (induction n) simp_all

lemma escape_ampersands: "length (escape (trim (replicate 10000 0x26))) = 50000"
  by (simp add: trim_replicate not_isWhiteSpace_letter escape_entity length_concat_replicate
      entity_def js_def)

text \<open>
  C6. The result of \<open>sanitizeInput\<close> contains no \<open><\<close>, no \<open>>\<close> and no quote character,
  for every input: it is the first 10000 code units of the trimmed input with every
  character replaced by its encoding, so a cut through an encoding leaves none of them
  either.
\<close>

theorem sanitizeInput_no_markup:
  "0x3C \<notin> set (sanitizeInput input) \<and> 0x3E \<notin> set (sanitizeInput input) \<and>
   0x22 \<notin> set (sanitizeInput input) \<and> 0x27 \<notin> set (sanitizeInput input) \<and>
   sanitizeInput input = take 10000 (concat (map entity (trim input)))"
  using sanitizeInput_set[of _ input] entity_no_markup sanitizeInput_eq by blast

text \<open>
  C7. Sanitising is not idempotent: \<open>&\<close> becomes \<open>&amp;\<close>, and sanitising that again
  gives \<open>&amp;amp;\<close>.
\<close>

theorem sanitizeInput_not_idempotent:
  "\<exists>x. sanitizeInput (sanitizeInput x) \<noteq> sanitizeInput x"
proof
  show "sanitizeInput (sanitizeInput (js ''&'')) \<noteq> sanitizeInput (js ''&'')"
    by (simp add: sanitizeInput_eq trim_def isWhiteSpace_def entity_def js_def)
qed

text \<open>
  C9. \<open>validateMessage\<close> rejects every string of more than 10000 code units, and accepts
  every string of exactly 10000 code units that is not empty after trimming.
\<close>

theorem validateMessage_length:
  "(10000 < length s \<longrightarrow> \<not> validateMessage (JStr s)) \<and>
   (length s = 10000 \<and> trim s \<noteq> [] \<longrightarrow> validateMessage (JStr s))"
  by (auto simp: validateMessage_def)

theorem validateMessage_length_witness:
  "10000 < length (replicate 10001 (0x61 :: jschar)) \<and>
   \<not> validateMessage (JStr (replicate 10001 0x61)) \<and>
   length (replicate 10000 (0x61 :: jschar)) = 10000 \<and>
   trim (replicate 10000 0x61) \<noteq> [] \<and>
   validateMessage (JStr (replicate 10000 0x61))"
  using validateMessage_length[of "replicate 10001 0x61"]
    validateMessage_length[of "replicate 10000 0x61"]
  by (simp add: trim_replicate not_isWhiteSpace_letter)

section \<open>Properties of the create route\<close>

lemma trace_saveMessage:
  "trace (snd (saveMessage dirname uuid content m)) =
     trace m @ [WriteFile (filePath dirname uuid) content]"
  by (simp add: saveMessage_def fs_writeFile_def record_call_def Let_def)

lemma calls_since_post_create:
  "written (calls_since m (snd (post_create dirname uuid (Some message) m))) =
     (case message of
        JStr s \<Rightarrow> if validateMessage message then [sanitizeInput s] else []
      | _ \<Rightarrow> [])"
proof (cases message)
  case (JStr s)
  show ?thesis
  proof (cases "validateMessage message")
    case True
    have "snd (post_create dirname uuid (Some message) m) =
          snd (saveMessage dirname uuid (sanitizeInput s) m)"
      using True JStr by (simp add: post_create_def Let_def split: prod.splits sum.splits)
    then show ?thesis using True JStr
      by (simp add: calls_since_def trace_saveMessage)
  next
    case False
    then show ?thesis using JStr by (simp add: post_create_def calls_since_def)
  qed
qed (simp_all add: post_create_def validateMessage_def calls_since_def)

lemma calls_since_post_create_no_body:
  "written (calls_since m (snd (post_create dirname uuid None m))) = []"
  by (simp add: post_create_def calls_since_def)

text \<open>
  C8. Every content string that the create route hands to \<open>fs.writeFile\<close> has at most
  10000 code units, whatever the request body was, a missing body included. The witness is
  a message of 10000 ampersands: it is accepted, escaping expands it to 50000 code units, and what is written
  is cut to 10000.
\<close>

theorem post_create_content_bounded:
  "c \<in> set (written (calls_since m (snd (post_create dirname uuid body m)))) \<Longrightarrow>
   length c \<le> 10000"
  by (cases body)
     (auto simp: calls_since_post_create calls_since_post_create_no_body sanitizeInput_length
       split: jsvalue.splits if_splits)

theorem post_create_content_bounded_witness:
  "sanitizeInput (replicate 10000 0x26) \<in>
     set (written (calls_since empty_medium
       (snd (post_create app_dirname some_uuid (Some (JStr (replicate 10000 0x26)))
         empty_medium)))) \<and>
   length (sanitizeInput (replicate 10000 0x26)) \<le> 10000 \<and>
   length (escape (trim (replicate 10000 0x26))) = 50000"
proof -
  have v: "validateMessage (JStr (replicate 10000 0x26))"
    by (simp add: validateMessage_def trim_replicate not_isWhiteSpace_letter)
  have w: "sanitizeInput (replicate 10000 0x26) \<in>
     set (written (calls_since empty_medium
       (snd (post_create app_dirname some_uuid (Some (JStr (replicate 10000 0x26)))
         empty_medium))))"
    by (simp add: calls_since_post_create v)
  show ?thesis
    using w post_create_content_bounded[OF w] escape_ampersands by simp
qed

section \<open>Properties of isValidMessageId\<close>

lemma list_all2_replicate_left:
  "list_all2 P (replicate n a) us \<longleftrightarrow> length us = n \<and> list_all (P a) us"
proof (induction n arbitrary: us)
  case 0
  show ?case by auto
next
  case (Suc n)
  show ?case by (cases us) (auto simp: Suc)
qed

lemma regex_test_all2:
  "regex_test ps s \<longleftrightarrow> list_all2 atom_match (concat (map (\<lambda>(a, n). replicate n a) ps)) s"
proof (induction ps arbitrary: s)
  case Nil
  show ?case by auto
next
  case (Cons p ps)
  obtain a n where p: "p = (a, n)" by (cases p)
  show ?case
  proof
    assume l: "regex_test (p # ps) s"
    then have "list_all2 atom_match (replicate n a) (take n s)"
      and "list_all2 atom_match (concat (map (\<lambda>(a, n). replicate n a) ps)) (drop n s)"
      using Cons.IH[of "drop n s"] by (simp_all add: p list_all2_replicate_left)
    then have "list_all2 atom_match (replicate n a @ concat (map (\<lambda>(a, n). replicate n a) ps))
                 (take n s @ drop n s)"
      by (rule list_all2_appendI)
    then show "list_all2 atom_match (concat (map (\<lambda>(a, n). replicate n a) (p # ps))) s"
      by (simp add: p)
  next
    assume "list_all2 atom_match (concat (map (\<lambda>(a, n). replicate n a) (p # ps))) s"
    then have "list_all2 atom_match
        (replicate n a @ concat (map (\<lambda>(a, n). replicate n a) ps)) s"
      by (simp add: p)
    then obtain us vs where s: "s = us @ vs"
      and us: "list_all2 atom_match (replicate n a) us"
      and vs: "list_all2 atom_match (concat (map (\<lambda>(a, n). replicate n a) ps)) vs"
      unfolding list_all2_append1 by blast
    from us have "length us = n" "list_all (atom_match a) us"
      by (simp_all add: list_all2_replicate_left)
    then show "regex_test (p # ps) s"
      using vs Cons.IH[of vs] by (simp add: p s)
  qed
qed

lemma uuidRegex_atoms:
  "concat (map (\<lambda>(a, n). replicate n a) uuidRegex) =
     [Hex, Hex, Hex, Hex, Hex, Hex, Hex, Hex, Lit 0x2D, Hex, Hex, Hex, Hex, Lit 0x2D,
      Lit 0x34, Hex, Hex, Hex, Lit 0x2D, Variant, Hex, Hex, Hex, Lit 0x2D,
      Hex, Hex, Hex, Hex, Hex, Hex, Hex, Hex, Hex, Hex, Hex, Hex]"
  by (simp add: uuidRegex_def eval_nat_numeral)

lemma uuidRegex_positions:
  "list_all (\<lambda>i. concat (map (\<lambda>(a, n). replicate n a) uuidRegex) ! i =
      (if i \<in> {8, 13, 18, 23} then Lit 0x2D else if i = 14 then Lit 0x34
       else if i = 19 then Variant else Hex)) [0..<36]"
  unfolding uuidRegex_atoms by code_simp

lemma uuidRegex_nth:
  assumes "i < 36"
  shows "concat (map (\<lambda>(a, n). replicate n a) uuidRegex) ! i =
      (if i \<in> {8, 13, 18, 23} then Lit 0x2D else if i = 14 then Lit 0x34
       else if i = 19 then Variant else Hex)"
proof -
  have "i \<in> set [0..<36]" using assms by simp
  with uuidRegex_positions show ?thesis
    unfolding list_all_iff by (rule bspec)
qed

lemma atom_match_Hex: "atom_match (Lit 0x34) c \<Longrightarrow> atom_match Hex c"
  "atom_match Variant c \<Longrightarrow> atom_match Hex c"
  by auto

lemma isValidMessageId_nth:
  assumes "isValidMessageId s"
  shows "length s = 36"
    and "i < 36 \<Longrightarrow> atom_match
      (if i \<in> {8, 13, 18, 23} then Lit 0x2D else if i = 14 then Lit 0x34
       else if i = 19 then Variant else Hex) (s ! i)"
proof -
  have a: "list_all2 atom_match (concat (map (\<lambda>(a, n). replicate n a) uuidRegex)) s"
    using assms by (simp add: isValidMessageId_def regex_test_all2)
  have l: "length (concat (map (\<lambda>(a, n). replicate n a) uuidRegex)) = 36"
    unfolding uuidRegex_atoms by simp
  show "length s = 36" using list_all2_lengthD[OF a] l by simp
  assume i: "i < 36"
  have "atom_match (concat (map (\<lambda>(a, n). replicate n a) uuidRegex) ! i) (s ! i)"
    using list_all2_nthD[OF a] i l by simp
  then show "atom_match
      (if i \<in> {8, 13, 18, 23} then Lit 0x2D else if i = 14 then Lit 0x34
       else if i = 19 then Variant else Hex) (s ! i)"
    by (simp only: uuidRegex_nth[OF i])
qed

lemma atom_match_shape:
  "atom_match (if P then Lit 0x2D else if Q then Lit 0x34 else if R then Variant else Hex) c
   \<Longrightarrow> atom_match Hex c \<or> c = 0x2D"
  by (cases P; cases Q; cases R) auto

lemma isValidMessageId_chars:
  assumes "isValidMessageId s" and "c \<in> set s"
  shows "atom_match Hex c \<or> c = 0x2D"
proof -
  from assms(2) obtain i where i: "i < length s" "s ! i = c" by (auto simp: in_set_conv_nth)
  then have "i < 36" using isValidMessageId_nth(1)[OF assms(1)] by simp
  from isValidMessageId_nth(2)[OF assms(1) this] show ?thesis
    unfolding i(2) by (rule atom_match_shape)
qed

lemma isValidMessageId_no_separator:
  assumes "isValidMessageId s"
  shows "0x2F \<notin> set s" "0x2E \<notin> set s" "0x5C \<notin> set s" "0 \<notin> set s"
  using isValidMessageId_chars[OF assms, of "0x2F"] isValidMessageId_chars[OF assms, of "0x2E"]
    isValidMessageId_chars[OF assms, of "0x5C"] isValidMessageId_chars[OF assms, of 0]
  by auto

lemma isValidMessageId_some_uuid: "isValidMessageId some_uuid"
  by (simp add: some_uuid_def isValidMessageId_def uuidRegex_def js_def)

section \<open>Properties of path.join\<close>

lemma splitOn_nonempty: "splitOn sep xs \<noteq> []"
  by (induction xs) (auto split: list.splits)

lemma splitOn_no_sep: "sep \<notin> set xs \<Longrightarrow> splitOn sep xs = [xs]"
  by (induction xs) (auto split: list.splits)

lemma splitOn_append: "splitOn sep (a @ sep # b) = splitOn sep a @ splitOn sep b"
  by (induction a) (auto split: list.splits simp: splitOn_nonempty)

lemma splitOn_segments: "s \<in> set (splitOn sep xs) \<Longrightarrow> sep \<notin> set s"
  by (induction xs arbitrary: s) (auto split: if_splits list.splits)

lemma splitOn_joinSegments:
  "segs \<noteq> [] \<Longrightarrow> \<forall>s\<in>set segs. 0x2F \<notin> set s \<Longrightarrow> splitOn 0x2F (joinSegments segs) = segs"
  by (induction segs rule: joinSegments.induct) (simp_all add: splitOn_no_sep splitOn_append)

lemma joinSegments_snoc: "segs \<noteq> [] \<Longrightarrow> joinSegments (segs @ [f]) = joinSegments segs @ 0x2F # f"
  by (induction segs rule: joinSegments.induct) simp_all

lemma joinSegments_hd:
  "segs \<noteq> [] \<Longrightarrow> \<forall>s\<in>set segs. s \<noteq> [] \<Longrightarrow>
   joinSegments segs \<noteq> [] \<and> hd (joinSegments segs) = hd (hd segs)"
  by (induction segs rule: joinSegments.induct) simp_all

lemma dots: "js ''..'' \<noteq> []" "js ''.'' \<noteq> []" "js ''..'' \<noteq> js ''.''"
  by (simp_all add: js_def)

lemma normalized_butlast: "normalized a res \<Longrightarrow> normalized a (butlast res)"
  by (erule normalized.cases) (auto intro: normalized.start)

lemma normalized_segment:
  assumes "normalized a res"
  shows "normalized a (normalizeSegment a res seg)"
proof -
  consider "seg = [] \<or> seg = js ''.''"
    | "seg = js ''..''" "res \<noteq> [] \<and> last res \<noteq> js ''..''"
    | "seg = js ''..''" "res = [] \<or> last res = js ''..''" "a"
    | "seg = js ''..''" "res = [] \<or> last res = js ''..''" "\<not> a"
    | "seg \<noteq> []" "seg \<noteq> js ''.''" "seg \<noteq> js ''..''"
    by blast
  then show ?thesis
  proof cases
    case 1
    then show ?thesis using assms by (auto simp: normalizeSegment_def)
  next
    case 2
    then show ?thesis using normalized_butlast[OF assms] by (simp add: normalizeSegment_def dots)
  next
    case 3
    then have "normalizeSegment a res seg = res @ [js ''..'']"
      by (auto simp: normalizeSegment_def dots)
    then show ?thesis using normalized.above[OF 3(3) assms 3(2)] by simp
  next
    case 4
    then show ?thesis using assms by (auto simp: normalizeSegment_def dots)
  next
    case 5
    then show ?thesis using normalized.below[OF assms 5] by (simp add: normalizeSegment_def)
  qed
qed

lemma normalized_foldl:
  "normalized a res \<Longrightarrow> normalized a (foldl (normalizeSegment a) res segs)"
  by (induction segs arbitrary: res) (simp_all add: normalized_segment)

lemma normalized_elements: "normalized a res \<Longrightarrow> s \<in> set res \<Longrightarrow> s \<noteq> []"
  by (induction rule: normalized.induct) (auto simp: dots dots[symmetric])

lemma normalized_fixed: "normalized a res \<Longrightarrow> foldl (normalizeSegment a) [] res = res"
  by (induction rule: normalized.induct) (auto simp: normalizeSegment_def dots)

lemma normalizeSegment_elements:
  "s \<in> set (normalizeSegment a res seg) \<Longrightarrow> s \<in> set res \<or> s = seg"
  by (auto simp: normalizeSegment_def split: if_splits dest: in_set_butlastD)

lemma foldl_elements:
  "s \<in> set (foldl (normalizeSegment a) res segs) \<Longrightarrow> s \<in> set res \<or> s \<in> set segs"
  by (induction segs arbitrary: res) (auto dest!: normalizeSegment_elements)

lemma normalizeString_elements: "s \<in> set (normalizeString path a) \<Longrightarrow> 0x2F \<notin> set s"
  unfolding normalizeString_def using foldl_elements[of s a "[]"] splitOn_segments by fastforce

lemma path_normalize_segments:
  assumes "path \<noteq> []" and "last path \<noteq> 0x2F"
    and "normalizeString path (hd path \<noteq> 0x2F) = segs"
    and "segs \<noteq> []" and "\<forall>s\<in>set segs. s \<noteq> []"
  shows "path_normalize path = (if hd path = 0x2F then [0x2F] else []) @ joinSegments segs"
proof -
  have "joinSegments segs \<noteq> []" using joinSegments_hd[OF assms(4,5)] by simp
  then show ?thesis using assms(1,2,3) by (simp add: path_normalize_def Let_def)
qed

lemma foldl_normalizeSegment_empty:
  "foldl (normalizeSegment a) [] ([] # segs) = foldl (normalizeSegment a) [] segs"
  by (simp add: normalizeSegment_def)

lemma normalizeSegment_name:
  "f \<noteq> [] \<Longrightarrow> f \<noteq> js ''.'' \<Longrightarrow> f \<noteq> js ''..'' \<Longrightarrow> normalizeSegment a res f = res @ [f]"
  by (simp add: normalizeSegment_def)

lemma path_join_child:
  assumes d: "dir \<noteq> []" "last dir \<noteq> 0x2F"
    and r: "dir = (if ab then [0x2F] else []) @ joinSegments segs"
    and s: "segs \<noteq> []" "normalized (\<not> ab) segs" "\<forall>s\<in>set segs. 0x2F \<notin> set s"
    and f: "f \<noteq> []" "f \<noteq> js ''.''" "f \<noteq> js ''..''" "0x2F \<notin> set f"
  shows "path_join [dir, f] = dir @ 0x2F # f"
proof -
  have ne: "\<forall>s\<in>set segs. s \<noteq> []" using normalized_elements[OF s(2)] by blast
  have j: "joinSegments segs \<noteq> []" "hd (joinSegments segs) = hd (hd segs)"
    using joinSegments_hd[OF s(1) ne] by simp_all
  have "hd segs \<in> set segs" using s(1) by simp
  then have "hd (hd segs) \<in> set (hd segs)" "0x2F \<notin> set (hd segs)" using ne s(3) by simp_all
  then have "hd (hd segs) \<noteq> 0x2F" by metis
  then have h: "hd dir = 0x2F \<longleftrightarrow> ab" using j by (cases ab) (simp_all add: r)
  let ?p = "dir @ 0x2F # f"
  have sj: "splitOn 0x2F (joinSegments segs) = segs" by (rule splitOn_joinSegments[OF s(1) s(3)])
  have sd: "splitOn 0x2F dir = (if ab then [] # segs else segs)"
    by (cases ab) (simp_all add: r sj)
  have split: "splitOn 0x2F ?p = splitOn 0x2F dir @ [f]"
    using f(4) by (simp add: splitOn_append splitOn_no_sep)
  have "foldl (normalizeSegment (\<not> ab)) [] (splitOn 0x2F dir) = segs"
    unfolding sd using normalized_fixed[OF s(2)]
    by (cases ab) (simp_all only: if_True if_False foldl_normalizeSegment_empty)
  then have "foldl (normalizeSegment (\<not> ab)) [] (splitOn 0x2F ?p) = segs @ [f]"
    unfolding split foldl_append using f(1,2,3) by (simp add: normalizeSegment_name)
  then have n: "normalizeString ?p (\<not> ab) = segs @ [f]" by (simp only: normalizeString_def)
  have p: "hd ?p = hd dir" "?p \<noteq> []" "last ?p = last f" using d f by simp_all
  have "last f \<in> set f" using f(1) by simp
  then have lf: "last f \<noteq> 0x2F" using f(4) by metis
  have hp: "(hd ?p \<noteq> 0x2F) = (\<not> ab)" using h p(1) by simp
  have n': "normalizeString ?p (hd ?p \<noteq> 0x2F) = segs @ [f]" unfolding hp by (rule n)
  have lp: "last ?p \<noteq> 0x2F" using lf p(3) by simp
  have nes: "segs @ [f] \<noteq> []" "\<forall>s\<in>set (segs @ [f]). s \<noteq> []" using ne f(1) by simp_all
  have "path_normalize ?p = (if hd ?p = 0x2F then [0x2F] else []) @ joinSegments (segs @ [f])"
    by (rule path_normalize_segments[OF p(2) lp n' nes])
  also have "\<dots> = (if ab then [0x2F] else []) @ joinSegments segs @ 0x2F # f"
    using hp by (simp add: joinSegments_snoc[OF s(1)])
  also have "\<dots> = ?p" by (simp add: r)
  finally have "path_normalize ?p = ?p" .
  moreover have "path_join [dir, f] = path_normalize ?p"
    using d(1) f(1) by (simp add: path_join_def)
  ultimately show ?thesis by simp
qed

lemma messages_name:
  "js ''messages'' \<noteq> []" "js ''messages'' \<noteq> js ''.''" "js ''messages'' \<noteq> js ''..''"
  "last (js ''messages'') \<noteq> 0x2F"
  by (simp_all add: js_def)

lemma splitOn_up: "splitOn 0x2F (js ''../../messages'') = [js ''..'', js ''..'', js ''messages'']"
  by (simp add: js_def)

lemma messagesDir_segments:
  "\<exists>segs. normalized (\<not> (dirname \<noteq> [] \<and> hd dirname = 0x2F)) (segs @ [js ''messages'']) \<and>
     (\<forall>s\<in>set (segs @ [js ''messages'']). 0x2F \<notin> set s) \<and>
     messagesDir dirname =
       (if dirname \<noteq> [] \<and> hd dirname = 0x2F then [0x2F] else []) @
       joinSegments (segs @ [js ''messages''])"
proof -
  let ?ab = "dirname \<noteq> [] \<and> hd dirname = 0x2F"
  let ?p = "if dirname = [] then js ''../../messages'' else dirname @ 0x2F # js ''../../messages''"
  let ?pre = "if dirname = [] then [] else splitOn 0x2F dirname"
  let ?r = "foldl (normalizeSegment (\<not> ?ab)) [] (?pre @ [js ''..'', js ''..''])"
  have sp: "splitOn 0x2F ?p = (?pre @ [js ''..'', js ''..'']) @ [js ''messages'']"
    by (simp add: splitOn_append splitOn_up)
  have ns: "normalizeString ?p (\<not> ?ab) = ?r @ [js ''messages'']"
    unfolding normalizeString_def sp foldl_append
    by (simp add: normalizeSegment_name[OF messages_name(1,2,3)])
  have nr: "normalized (\<not> ?ab) ?r" by (rule normalized_foldl[OF normalized.start])
  have n: "normalized (\<not> ?ab) (?r @ [js ''messages''])"
    by (rule normalized.below[OF nr messages_name(1,2,3)])
  have e: "\<forall>s\<in>set (?r @ [js ''messages'']). 0x2F \<notin> set s"
    using normalizeString_elements[of _ ?p "\<not> ?ab"] unfolding ns by blast
  have ne: "\<forall>s\<in>set (?r @ [js ''messages'']). s \<noteq> []"
    using normalized_elements[OF n] by blast
  have hp: "(hd ?p \<noteq> 0x2F) = (\<not> ?ab)" by (cases dirname) (simp_all add: js_def)
  have lp: "?p \<noteq> []" "last ?p \<noteq> 0x2F" by (simp_all add: js_def)
  have ns': "normalizeString ?p (hd ?p \<noteq> 0x2F) = ?r @ [js ''messages'']"
    unfolding hp by (rule ns)
  have nn: "?r @ [js ''messages''] \<noteq> []" by simp
  have hp2: "(hd ?p = 0x2F) = ?ab" using hp by blast
  have pn: "path_normalize ?p =
      (if ?ab then [0x2F] else []) @ joinSegments (?r @ [js ''messages''])"
    using path_normalize_segments[OF lp ns' nn ne] unfolding hp2 .
  have md: "messagesDir dirname = path_normalize ?p"
    by (simp add: messagesDir_def path_join_def js_def)
  have "messagesDir dirname =
      (if ?ab then [0x2F] else []) @ joinSegments (?r @ [js ''messages''])"
    by (simp only: md pn)
  with n e show ?thesis by (intro exI[of _ ?r] conjI)
qed

lemma filePath_child:
  assumes f: "f \<noteq> []" "f \<noteq> js ''.''" "f \<noteq> js ''..''" "0x2F \<notin> set f"
  shows "path_join [messagesDir dirname, f] = messagesDir dirname @ 0x2F # f"
proof -
  let ?ab = "dirname \<noteq> [] \<and> hd dirname = 0x2F"
  obtain segs where n: "normalized (\<not> ?ab) (segs @ [js ''messages''])"
    and e: "\<forall>s\<in>set (segs @ [js ''messages'']). 0x2F \<notin> set s"
    and r: "messagesDir dirname = (if ?ab then [0x2F] else []) @ joinSegments (segs @ [js ''messages''])"
    using messagesDir_segments[of dirname] by blast
  have nn: "segs @ [js ''messages''] \<noteq> []" by simp
  have j: "joinSegments (segs @ [js ''messages'']) \<noteq> []"
    using joinSegments_hd[OF nn] normalized_elements[OF n] by blast
  have "last (joinSegments (segs @ [js ''messages''])) = last (js ''messages'')"
    by (cases "segs = []") (simp_all add: joinSegments_snoc messages_name)
  then have l: "last (messagesDir dirname) \<noteq> 0x2F"
    using j messages_name(4) by (simp add: r)
  have d: "messagesDir dirname \<noteq> []" using j by (simp add: r)
  show ?thesis by (rule path_join_child[OF d l r nn n e f])
qed

lemma atom_match_position:
  "atom_match (if P then Lit 0x2D else if Q then Lit 0x34 else if R then Variant else Hex) c
   \<Longrightarrow> (if P then c = 0x2D else atom_match Hex c)"
  by (cases P; cases Q; cases R) auto

lemma txt_name:
  assumes "0x2F \<notin> set s"
  shows "s @ js ''.txt'' \<noteq> []" "s @ js ''.txt'' \<noteq> js ''.''" "s @ js ''.txt'' \<noteq> js ''..''"
    "0x2F \<notin> set (s @ js ''.txt'')"
  using assms by (auto simp: js_def append_eq_Cons_conv)

lemma messagesDir_app: "messagesDir app_dirname = js ''/app/messages''"
  by (simp add: app_dirname_def messagesDir_def path_join_def path_normalize_def
      normalizeString_def normalizeSegment_def js_def)

text \<open>
  C10. An identifier accepted by \<open>isValidMessageId\<close> has 36 characters, hyphens at
  positions 8, 13, 18 and 23 and hexadecimal digits (of either case) elsewhere. So it has
  no \<open>/\<close>, no backslash, no \<open>.\<close> and no NUL, and the path that
  \<open>readAndDeleteMessage\<close> builds from it is the messages directory followed by the one
  segment \<open>messageId.txt\<close>: a file directly inside that directory.
\<close>

theorem isValidMessageId_safe:
  assumes "isValidMessageId messageId"
  shows "length messageId = 36 \<and>
    (\<forall>i<36. if i \<in> {8, 13, 18, 23} then messageId ! i = 0x2D
            else atom_match Hex (messageId ! i)) \<and>
    0x2F \<notin> set messageId \<and> 0x5C \<notin> set messageId \<and> 0x2E \<notin> set messageId \<and>
    0 \<notin> set messageId \<and>
    filePath dirname messageId = messagesDir dirname @ 0x2F # messageId @ js ''.txt''"
proof -
  have p: "\<forall>i<36. if i \<in> {8, 13, 18, 23} then messageId ! i = 0x2D
            else atom_match Hex (messageId ! i)"
    using isValidMessageId_nth(2)[OF assms] atom_match_position by blast
  have s: "0x2F \<notin> set messageId" by (rule isValidMessageId_no_separator(1)[OF assms])
  have "filePath dirname messageId = messagesDir dirname @ 0x2F # messageId @ js ''.txt''"
    unfolding filePath_def by (rule filePath_child[OF txt_name[OF s]])
  then show ?thesis
    using p isValidMessageId_nth(1)[OF assms] isValidMessageId_no_separator[OF assms] by blast
qed

theorem isValidMessageId_safe_witness:
  "isValidMessageId some_uuid \<and> length some_uuid = 36 \<and> some_uuid ! 8 = 0x2D \<and>
   atom_match Hex (some_uuid ! 9) \<and> 0x2F \<notin> set some_uuid \<and>
   filePath app_dirname some_uuid =
     js ''/app/messages/123e4567-e89b-42d3-a456-426614174000.txt''"
proof -
  have "js ''/app/messages'' @ 0x2F # some_uuid @ js ''.txt'' =
      js ''/app/messages/123e4567-e89b-42d3-a456-426614174000.txt''"
    by (simp add: some_uuid_def js_def)
  moreover have "some_uuid ! 8 = 0x2D" "atom_match Hex (some_uuid ! 9)"
    by (simp_all add: some_uuid_def js_def)
  ultimately show ?thesis
    using isValidMessageId_safe[OF isValidMessageId_some_uuid, of app_dirname]
      isValidMessageId_some_uuid
    by (simp add: messagesDir_app)
qed

section \<open>Properties of the store\<close>

lemma filePath_name:
  "0x2F \<notin> set s \<Longrightarrow> filePath dirname s = messagesDir dirname @ 0x2F # s @ js ''.txt''"
  unfolding filePath_def by (rule filePath_child[OF txt_name])

lemma filePath_some_uuid: "filePath app_dirname some_uuid = some_file"
proof -
  have n: "0x2F \<notin> set some_uuid" by (simp add: some_uuid_def js_def)
  show ?thesis unfolding filePath_name[OF n] messagesDir_app
    by (simp add: some_uuid_def some_file_def js_def)
qed


lemma filePath_notes: "filePath app_dirname (js ''../notes'') = js ''/app/notes.txt''"
  by (simp add: filePath_def messagesDir_app)
     (simp add: path_join_def path_normalize_def normalizeString_def normalizeSegment_def js_def)

lemma filePath_inject:
  assumes "isValidMessageId u" "isValidMessageId k" "filePath dirname u = filePath dirname k"
  shows "u = k"
  using assms isValidMessageId_no_separator(1)[OF assms(1)] isValidMessageId_no_separator(1)[OF assms(2)]
  by (simp add: filePath_name)

text \<open>readAndDeleteMessage, call by call.\<close>

lemma readAndDeleteMessage_result:
  "fst (readAndDeleteMessage dirname k m) =
     Inr (if Access (filePath dirname k) \<in> denied m \<or> ReadFile (filePath dirname k) \<in> denied m \<or>
             Unlink (filePath dirname k) \<in> denied m
          then None else files m (filePath dirname k))"
  by (simp add: readAndDeleteMessage_def fs_access_def fs_readFile_def fs_unlink_def
      record_call_def Let_def split: option.splits)

lemma readAndDeleteMessage_files:
  "files (snd (readAndDeleteMessage dirname k m)) =
     (if fst (readAndDeleteMessage dirname k m) = Inr None then files m
      else (files m)((filePath dirname k) := None))"
  by (simp add: readAndDeleteMessage_def fs_access_def fs_readFile_def fs_unlink_def
      record_call_def Let_def split: option.splits)


lemma saveMessage_result:
  "fst (saveMessage dirname u c m) =
     (if WriteFile (filePath dirname u) c \<in> denied m then Inl EACCES else Inr u)"
  by (simp add: saveMessage_def fs_writeFile_def record_call_def Let_def)

lemma saveMessage_files:
  "files (snd (saveMessage dirname u c m)) =
     (if WriteFile (filePath dirname u) c \<in> denied m then files m
      else (files m)(filePath dirname u \<mapsto> utf8_text c))"
  by (simp add: saveMessage_def fs_writeFile_def record_call_def Let_def)

lemma saveMessage_denied: "denied (snd (saveMessage dirname u c m)) = denied m"
  by (simp add: saveMessage_def fs_writeFile_def record_call_def Let_def)

lemma utf8_text_wellformed: "isWellFormed c \<Longrightarrow> utf8_text c = c"
  by (induction c rule: utf8_text.induct) (auto split: if_splits)

lemma not_valid_examples:
  "\<not> isValidMessageId (js ''../etc/passwd'')" "\<not> isValidMessageId []"
  "\<not> isValidMessageId (js ''not-a-real-token'')" "\<not> isValidMessageId (js ''../notes'')"
  by (simp_all add: isValidMessageId_def uuidRegex_def js_def)

text \<open>
  C2, as stated, fails: \<open>readAndDeleteMessage\<close> does not call \<open>isValidMessageId\<close>.
  Given the malformed key \<open>../notes\<close> it reads, returns and removes the file
  \<open>/app/notes.txt\<close>, outside the messages directory.
\<close>

theorem store_accepts_malformed_key:
  "\<not> isValidMessageId (js ''../notes'') \<and>
   fst (readAndDeleteMessage app_dirname (js ''../notes'') notes_medium) = Inr (Some (js ''secret'')) \<and>
   trace (snd (readAndDeleteMessage app_dirname (js ''../notes'') notes_medium)) =
     [Access (js ''/app/notes.txt''), ReadFile (js ''/app/notes.txt''), Unlink (js ''/app/notes.txt'')] \<and>
   files (snd (readAndDeleteMessage app_dirname (js ''../notes'') notes_medium)) (js ''/app/notes.txt'') = None"
  by (simp add: not_valid_examples readAndDeleteMessage_def filePath_notes notes_medium_def
      fs_access_def fs_readFile_def fs_unlink_def record_call_def Let_def)

text \<open>
  C2, amended. The check is made by the route \<open>GET /message/:id\<close>: for every malformed
  key it renders the not-found page and leaves the medium as it was, without a single call
  to it.
\<close>

theorem get_message_rejects_malformed:
  "\<not> isValidMessageId ident \<Longrightarrow> get_message dirname ident m = (Render_message None, m)"
  by (simp add: get_message_def)

theorem get_message_rejects_malformed_witness:
  "\<not> isValidMessageId (js ''../etc/passwd'') \<and>
   get_message app_dirname (js ''../etc/passwd'') notes_medium = (Render_message None, notes_medium) \<and>
   \<not> isValidMessageId [] \<and>
   get_message app_dirname [] notes_medium = (Render_message None, notes_medium) \<and>
   \<not> isValidMessageId (js ''not-a-real-token'') \<and>
   get_message app_dirname (js ''not-a-real-token'') notes_medium = (Render_message None, notes_medium) \<and>
   \<not> isValidMessageId (js ''../notes'') \<and>
   get_message app_dirname (js ''../notes'') notes_medium = (Render_message None, notes_medium)"
  using get_message_rejects_malformed[OF not_valid_examples(1), of app_dirname notes_medium]
    get_message_rejects_malformed[OF not_valid_examples(2), of app_dirname notes_medium]
    get_message_rejects_malformed[OF not_valid_examples(3), of app_dirname notes_medium]
    get_message_rejects_malformed[OF not_valid_examples(4), of app_dirname notes_medium]
    not_valid_examples
  by simp

lemma get_message_response:
  "isValidMessageId k \<Longrightarrow>
   fst (get_message dirname k m) =
     (case fst (readAndDeleteMessage dirname k m) of
        Inl e \<Rightarrow> Send 500 ''Internal server error'' | Inr r \<Rightarrow> Render_message r)"
  by (simp add: get_message_def split: prod.splits sum.splits)

text \<open>
  C3, as stated, fails: with a live entry whose removal the medium rejects (EACCES),
  \<open>readAndDeleteMessage\<close> resolves to \<open>null\<close>, and the route renders the not-found page.
\<close>

theorem storage_failure_reported_as_miss:
  "files locked_medium (filePath app_dirname some_uuid) = Some (js ''secret'') \<and>
   fst (fs_unlink (filePath app_dirname some_uuid) locked_medium) = Inl EACCES \<and>
   fst (readAndDeleteMessage app_dirname some_uuid locked_medium) = Inr None \<and>
   fst (get_message app_dirname some_uuid locked_medium) = Render_message None"
  by (simp add: filePath_some_uuid locked_medium_def fs_unlink_def readAndDeleteMessage_result
      get_message_response isValidMessageId_some_uuid)

text \<open>
  C3, amended. Whenever the medium rejects the existence check, the read or the removal,
  \<open>readAndDeleteMessage\<close> resolves to \<open>null\<close>: the \<open>catch\<close> block turns every rejection
  into a miss, and the route answers with the not-found page, never with status 500.
\<close>

theorem readAndDeleteMessage_swallows_failures:
  assumes "fst (fs_access (filePath dirname k) m) = Inl e \<or>
           fst (fs_readFile (filePath dirname k) m) = Inl e \<or>
           fst (fs_unlink (filePath dirname k) m) = Inl e"
  shows "fst (readAndDeleteMessage dirname k m) = Inr None \<and>
         (isValidMessageId k \<longrightarrow> fst (get_message dirname k m) = Render_message None)"
proof -
  have "fst (readAndDeleteMessage dirname k m) = Inr None"
    using assms
    by (auto simp: readAndDeleteMessage_result fs_access_def fs_readFile_def fs_unlink_def
        split: if_splits option.splits)
  then show ?thesis by (simp add: get_message_response)
qed

theorem readAndDeleteMessage_swallows_failures_witness:
  "fst (fs_unlink (filePath app_dirname some_uuid) locked_medium) = Inl EACCES \<and>
   fst (readAndDeleteMessage app_dirname some_uuid locked_medium) = Inr None \<and>
   isValidMessageId some_uuid \<and>
   fst (get_message app_dirname some_uuid locked_medium) = Render_message None"
proof -
  have u: "fst (fs_unlink (filePath app_dirname some_uuid) locked_medium) = Inl EACCES"
    by (simp add: filePath_some_uuid locked_medium_def fs_unlink_def)
  show ?thesis
    using readAndDeleteMessage_swallows_failures[of app_dirname some_uuid locked_medium EACCES] u
      isValidMessageId_some_uuid
    by simp
qed

text \<open>
  C4, as stated, fails twice over. For a content string with an unpaired surrogate code
  unit, the file is written as UTF-8, which has no encoding for it, and the read returns
  U+FFFD in its place. And on a medium that accepts the write but rejects the read, the
  save succeeds and the read that follows returns \<open>null\<close>.
\<close>

theorem round_trip_not_exact:
  "fst (saveMessage app_dirname some_uuid [0xD800] empty_medium) = Inr some_uuid \<and>
   fst (readAndDeleteMessage app_dirname some_uuid
         (snd (saveMessage app_dirname some_uuid [0xD800] empty_medium))) = Inr (Some [0xFFFD]) \<and>
   fst (readAndDeleteMessage app_dirname some_uuid
         (snd (saveMessage app_dirname some_uuid [0xD800] empty_medium))) \<noteq> Inr (Some [0xD800]) \<and>
   fst (saveMessage app_dirname some_uuid (js ''hello'') unreadable_medium) = Inr some_uuid \<and>
   fst (readAndDeleteMessage app_dirname some_uuid
         (snd (saveMessage app_dirname some_uuid (js ''hello'') unreadable_medium))) = Inr None"
  by (simp add: saveMessage_result readAndDeleteMessage_result saveMessage_files
      saveMessage_denied empty_medium_def unreadable_medium_def isHighSurrogate_def
      filePath_some_uuid)

text \<open>
  C4, amended. If \<open>saveMessage\<close> with content \<open>c\<close> succeeds and returns \<open>K\<close>, and the
  medium rejects none of the three calls on the file of \<open>K\<close>, then the first
  \<open>readAndDeleteMessage\<close> of \<open>K\<close> returns \<open>c\<close> with every unpaired surrogate replaced by
  U+FFFD, which is \<open>c\<close> itself when \<open>c\<close> is well-formed UTF-16, and the one right after
  it returns \<open>null\<close>.
\<close>

theorem save_then_read_twice:
  assumes "saveMessage dirname uuid c m = (Inr K, m1)"
    and "Access (filePath dirname K) \<notin> denied m"
    and "ReadFile (filePath dirname K) \<notin> denied m"
    and "Unlink (filePath dirname K) \<notin> denied m"
  shows "fst (readAndDeleteMessage dirname K m1) = Inr (Some (utf8_text c)) \<and>
         (isWellFormed c \<longrightarrow> fst (readAndDeleteMessage dirname K m1) = Inr (Some c)) \<and>
         fst (readAndDeleteMessage dirname K (snd (readAndDeleteMessage dirname K m1))) = Inr None"
proof -
  have r: "fst (saveMessage dirname uuid c m) = Inr K" and m1: "m1 = snd (saveMessage dirname uuid c m)"
    using assms(1) by simp_all
  from r have k: "K = uuid" and w: "WriteFile (filePath dirname uuid) c \<notin> denied m"
    by (simp_all add: saveMessage_result split: if_splits)
  have f: "files m1 (filePath dirname K) = Some (utf8_text c)"
    using w by (simp add: m1 k saveMessage_files)
  have d: "denied m1 = denied m" by (simp add: m1 saveMessage_denied)
  have first: "fst (readAndDeleteMessage dirname K m1) = Inr (Some (utf8_text c))"
    using assms(2,3,4) f d by (simp add: readAndDeleteMessage_result)
  have "files (snd (readAndDeleteMessage dirname K m1)) (filePath dirname K) = None"
    using first by (simp add: readAndDeleteMessage_files)
  then have "fst (readAndDeleteMessage dirname K (snd (readAndDeleteMessage dirname K m1))) = Inr None"
    by (simp add: readAndDeleteMessage_result)
  then show ?thesis using first by (simp add: utf8_text_wellformed)
qed

theorem save_then_read_twice_witness:
  "saveMessage app_dirname some_uuid (js ''hello'') empty_medium =
     (Inr some_uuid, snd (saveMessage app_dirname some_uuid (js ''hello'') empty_medium)) \<and>
   isWellFormed (js ''hello'') \<and>
   fst (readAndDeleteMessage app_dirname some_uuid
         (snd (saveMessage app_dirname some_uuid (js ''hello'') empty_medium))) =
     Inr (Some (js ''hello'')) \<and>
   fst (readAndDeleteMessage app_dirname some_uuid
         (snd (readAndDeleteMessage app_dirname some_uuid
           (snd (saveMessage app_dirname some_uuid (js ''hello'') empty_medium))))) = Inr None"
proof -
  have s: "saveMessage app_dirname some_uuid (js ''hello'') empty_medium =
     (Inr some_uuid, snd (saveMessage app_dirname some_uuid (js ''hello'') empty_medium))"
    by (simp add: prod_eq_iff saveMessage_result empty_medium_def)
  have w: "isWellFormed (js ''hello'')"
    by (simp add: js_def isHighSurrogate_def isLowSurrogate_def)
  have d: "Access (filePath app_dirname some_uuid) \<notin> denied empty_medium"
    "ReadFile (filePath app_dirname some_uuid) \<notin> denied empty_medium"
    "Unlink (filePath app_dirname some_uuid) \<notin> denied empty_medium"
    by (simp_all add: empty_medium_def)
  note t = save_then_read_twice[OF s d]
  from t w have a: "fst (readAndDeleteMessage app_dirname some_uuid
         (snd (saveMessage app_dirname some_uuid (js ''hello'') empty_medium))) =
     Inr (Some (js ''hello''))" by blast
  from t have b: "fst (readAndDeleteMessage app_dirname some_uuid
         (snd (readAndDeleteMessage app_dirname some_uuid
           (snd (saveMessage app_dirname some_uuid (js ''hello'') empty_medium))))) = Inr None"
    by blast
  from s w a b show ?thesis by (intro conjI)
qed







section \<open>Properties of interleaved invocations\<close>

lemma length_filter_update:
  "i < length xs \<Longrightarrow>
   length (filter P (xs[i := y])) + (if P (xs ! i) then 1 else 0) =
   length (filter P xs) + (if P y then 1 else 0)"
proof (induction xs arbitrary: i)
  case Nil
  then show ?case by simp
next
  case (Cons x xs)
  show ?case
  proof (cases i)
    case 0
    then show ?thesis by simp
  next
    case (Suc j)
    then have "j < length xs" using Cons.prems by simp
    from Cons.IH[OF this] show ?thesis using Suc by simp
  qed
qed

lemma length_filter_mono:
  "(\<And>x. P x \<Longrightarrow> Q x) \<Longrightarrow> length (filter P xs) \<le> length (filter Q xs)"
  by (induction xs) auto

text \<open>
  One step of one invocation: whether it has delivered, plus whether its file is there,
  stays the same; no other file changes.
\<close>

lemma resume_conserve:
  "resume fp st m = (st', m') \<Longrightarrow>
   (if delivered st' then 1 else 0) + live fp m' = (if delivered st then (1::nat) else 0) + live fp m"
  by (cases st rule: delivered.cases)
     (auto simp: fs_access_def fs_readFile_def fs_unlink_def record_call_def live_def
       split: if_splits option.splits)

lemma resume_other_file:
  "resume fp st m = (st', m') \<Longrightarrow> q \<noteq> fp \<Longrightarrow> files m' q = files m q"
  by (cases st rule: delivered.cases)
     (auto simp: fs_access_def fs_readFile_def fs_unlink_def record_call_def
       split: if_splits option.splits)

lemma resume_nth_conserve:
  "deliveries_of_file dirname q (fst (resume_nth dirname i sv)) + live q (snd (resume_nth dirname i sv)) =
   deliveries_of_file dirname q (fst sv) + live q (snd sv)"
proof -
  obtain invs m where sv: "sv = (invs, m)" by (cases sv)
  show ?thesis
  proof (cases "i < length invs")
    case False
    then show ?thesis by (simp add: resume_nth_def sv)
  next
    case True
    obtain k st where inv: "invs ! i = (k, st)" by (cases "invs ! i")
    obtain st' m' where r: "resume (filePath dirname k) st m = (st', m')"
      by (cases "resume (filePath dirname k) st m")
    have n: "resume_nth dirname i (invs, m) = (invs[i := (k, st')], m')"
      using True inv r by (simp add: resume_nth_def)
    let ?P = "\<lambda>inv. filePath dirname (fst inv) = q \<and> delivered (snd inv)"
    have u: "length (filter ?P (invs[i := (k, st')])) + (if ?P (k, st) then 1 else 0) =
        length (filter ?P invs) + (if ?P (k, st') then 1 else 0)"
      using length_filter_update[OF True, of ?P "(k, st')"] inv by simp
    show ?thesis
    proof (cases "filePath dirname k = q")
      case True
      then have "(if delivered st' then 1 else 0) + live q m' =
          (if delivered st then (1::nat) else 0) + live q m"
        using resume_conserve[OF r] by simp
      then show ?thesis using u True
        by (simp add: sv n deliveries_of_file_def split: if_splits)
    next
      case False
      then have "files m' q = files m q" using resume_other_file[OF r, of q] by simp
      then have "live q m' = live q m" by (simp add: live_def)
      then show ?thesis using u False by (simp add: sv n deliveries_of_file_def)
    qed
  qed
qed

lemma run_conserve:
  "deliveries_of_file dirname q (fst (run dirname sched sv)) + live q (snd (run dirname sched sv)) =
   deliveries_of_file dirname q (fst sv) + live q (snd sv)"
  by (induction sched arbitrary: sv) (simp_all add: resume_nth_conserve)

lemma spawn_deliveries: "deliveries_of_file dirname q (fst (spawn ids m)) = 0"
  by (simp add: spawn_def deliveries_of_file_def o_def)

lemma deliveries_le_file:
  "deliveries k sv \<le> deliveries_of_file dirname (filePath dirname k) (fst sv)"
  unfolding deliveries_def deliveries_of_file_def by (rule length_filter_mono) simp

lemma run_deliveries_of_file:
  "deliveries_of_file dirname q (fst (run dirname sched (spawn ids m))) +
     live q (snd (run dirname sched (spawn ids m))) = live q m"
  using run_conserve[of dirname q sched "spawn ids m"]
  by (simp add: spawn_deliveries) (simp add: spawn_def)

lemma resume_files_shrink:
  "resume fp st m = (st', m') \<Longrightarrow> files m' p = Some c \<Longrightarrow> files m p = Some c"
  by (cases st rule: delivered.cases)
     (auto simp: fs_access_def fs_readFile_def fs_unlink_def record_call_def
       split: if_splits option.splits)

lemma resume_holds_content:
  "resume fp st m = (st', m') \<Longrightarrow> st' = Read c \<or> st' = Settled (Some c) \<Longrightarrow>
   st = Read c \<or> st = Settled (Some c) \<or> files m fp = Some c"
  by (cases st rule: delivered.cases)
     (auto simp: fs_access_def fs_readFile_def fs_unlink_def record_call_def
       split: if_splits option.splits)

lemma resume_denied: "resume fp st m = (st', m') \<Longrightarrow> denied m' = denied m"
  by (cases st rule: delivered.cases)
     (auto simp: fs_access_def fs_readFile_def fs_unlink_def record_call_def
       split: if_splits option.splits)

lemma resume_nth_cases:
  obtains (idle) "resume_nth dirname i (invs, m) = (invs, m)"
  | (step) k st st' m' where "i < length invs" "invs ! i = (k, st)"
      "resume (filePath dirname k) st m = (st', m')"
      "resume_nth dirname i (invs, m) = (invs[i := (k, st')], m')"
proof (cases "i < length invs")
  case False
  then show ?thesis using idle by (simp add: resume_nth_def)
next
  case True
  obtain k st where inv: "invs ! i = (k, st)" by (cases "invs ! i")
  obtain st' m' where r: "resume (filePath dirname k) st m = (st', m')"
    by (cases "resume (filePath dirname k) st m")
  have "resume_nth dirname i (invs, m) = (invs[i := (k, st')], m')"
    using True inv r by (simp add: resume_nth_def)
  then show ?thesis using step True inv r by blast
qed

lemma content_inv_step:
  assumes "content_inv dirname m0 sv"
  shows "content_inv dirname m0 (resume_nth dirname i sv)"
proof -
  obtain invs m where sv: "sv = (invs, m)" by (cases sv)
  have f: "\<And>p c. files m p = Some c \<Longrightarrow> files m0 p = Some c"
    and h: "\<And>inv c. inv \<in> set invs \<Longrightarrow> snd inv = Read c \<or> snd inv = Settled (Some c) \<Longrightarrow>
        files m0 (filePath dirname (fst inv)) = Some c"
    using assms unfolding content_inv_def sv by auto
  show ?thesis unfolding sv
  proof (cases dirname i invs m rule: resume_nth_cases)
    case idle
    then show "content_inv dirname m0 (resume_nth dirname i (invs, m))"
      using assms by (simp add: sv)
  next
    case (step k st st' m')
    have f': "\<And>p c. files m' p = Some c \<Longrightarrow> files m0 p = Some c"
      using resume_files_shrink[OF step(3)] f by blast
    have old: "(k, st) \<in> set invs" using step(1,2) nth_mem by metis
    have new: "\<And>c. st' = Read c \<or> st' = Settled (Some c) \<Longrightarrow>
        files m0 (filePath dirname k) = Some c"
      using resume_holds_content[OF step(3)] h[OF old] f by fastforce
    have "\<And>inv c. inv \<in> set (invs[i := (k, st')]) \<Longrightarrow>
        snd inv = Read c \<or> snd inv = Settled (Some c) \<Longrightarrow>
        files m0 (filePath dirname (fst inv)) = Some c"
    proof -
      fix inv c
      assume a: "inv \<in> set (invs[i := (k, st')])"
        and b: "snd inv = Read c \<or> snd inv = Settled (Some c)"
      from a have "inv = (k, st') \<or> inv \<in> set invs"
        using set_update_subset_insert[of invs i "(k, st')"] by auto
      then show "files m0 (filePath dirname (fst inv)) = Some c"
        using new[of c] h[of inv c] b by auto
    qed
    then show "content_inv dirname m0 (resume_nth dirname i (invs, m))"
      using f' unfolding step(4) content_inv_def by auto
  qed
qed

lemma content_inv_run:
  "content_inv dirname m0 sv \<Longrightarrow> content_inv dirname m0 (run dirname sched sv)"
  by (induction sched arbitrary: sv) (simp_all add: content_inv_step)

lemma content_inv_spawn: "content_inv dirname m (spawn ids m)"
  by (auto simp: content_inv_def spawn_def)

text \<open>
  C1. Whatever the number of invocations, their identifiers, the medium and the order in
  which the invocations are resumed: at most one invocation with a given \<open>messageId\<close>
  has returned content, none has while the file is still there or when it never was, and
  content that an invocation returns is what its file held at the start. Every other
  settled invocation has returned \<open>null\<close>. The removal decides the race: an invocation
  returns what it read only if its own \<open>unlink\<close> succeeded.
\<close>

theorem single_delivery:
  "deliveries k (run dirname sched (spawn ids m)) \<le> 1 \<and>
   deliveries k (run dirname sched (spawn ids m)) +
     live (filePath dirname k) (snd (run dirname sched (spawn ids m))) \<le> live (filePath dirname k) m \<and>
   (\<forall>inv\<in>set (fst (run dirname sched (spawn ids m))). \<forall>c.
      snd inv = Settled (Some c) \<longrightarrow> files m (filePath dirname (fst inv)) = Some c)"
proof -
  let ?sv = "run dirname sched (spawn ids m)"
  have "deliveries k ?sv + live (filePath dirname k) (snd ?sv) \<le> live (filePath dirname k) m"
    using deliveries_le_file[of k ?sv dirname] run_deliveries_of_file[of dirname "filePath dirname k" sched ids m]
    by simp
  moreover have "live (filePath dirname k) m \<le> 1" by (simp add: live_def)
  moreover have "content_inv dirname m ?sv"
    by (rule content_inv_run[OF content_inv_spawn])
  ultimately show ?thesis unfolding content_inv_def by auto
qed

lemma race_outcome:
  "run app_dirname [0, 1, 0, 1, 0, 1] (spawn [some_uuid, some_uuid] live_medium) =
     ([(some_uuid, Settled (Some (js ''secret''))), (some_uuid, Settled None)],
      \<lparr>files = Map.empty, denied = {},
       trace = [Access some_file, Access some_file, ReadFile some_file, ReadFile some_file,
                Unlink some_file, Unlink some_file]\<rparr>)"
  by (simp add: spawn_def resume_nth_def filePath_some_uuid live_medium_def
      fs_access_def fs_readFile_def fs_unlink_def record_call_def)

theorem single_delivery_witness:
  "fst (run app_dirname [0, 1, 0, 1, 0, 1] (spawn [some_uuid, some_uuid] live_medium)) =
     [(some_uuid, Settled (Some (js ''secret''))), (some_uuid, Settled None)] \<and>
   deliveries some_uuid
     (run app_dirname [0, 1, 0, 1, 0, 1] (spawn [some_uuid, some_uuid] live_medium)) \<le> 1 \<and>
   files live_medium (filePath app_dirname some_uuid) = Some (js ''secret'')"
proof -
  note t = single_delivery[of some_uuid app_dirname "[0, 1, 0, 1, 0, 1]"
      "[some_uuid, some_uuid]" live_medium]
  have "(some_uuid, Settled (Some (js ''secret''))) \<in>
      set (fst (run app_dirname [0, 1, 0, 1, 0, 1] (spawn [some_uuid, some_uuid] live_medium)))"
    unfolding race_outcome by simp
  with t have "files live_medium (filePath app_dirname some_uuid) = Some (js ''secret'')"
    by fastforce
  moreover have "deliveries some_uuid
     (run app_dirname [0, 1, 0, 1, 0, 1] (spawn [some_uuid, some_uuid] live_medium)) \<le> 1"
    using t by blast
  ultimately show ?thesis unfolding race_outcome by simp
qed

text \<open>Run alone, an invocation is the sequential function.\<close>

lemma run_alone:
  "run dirname [0, 0, 0] (spawn [k] m) =
     (case readAndDeleteMessage dirname k m of
        (Inr r, m') \<Rightarrow> ([(k, Settled r)], m')
      | (Inl e, m') \<Rightarrow> ([], m'))"
  by (simp add: spawn_def resume_nth_def readAndDeleteMessage_def fs_access_def fs_readFile_def
      fs_unlink_def record_call_def Let_def split: option.splits)

lemma resume_progress:
  "resume fp st m = (st', m') \<Longrightarrow> files m fp \<noteq> None \<Longrightarrow> Access fp \<notin> denied m \<Longrightarrow>
   ReadFile fp \<notin> denied m \<Longrightarrow> Unlink fp \<notin> denied m \<Longrightarrow> \<forall>r. st \<noteq> Settled r \<Longrightarrow>
   (\<forall>r. st' \<noteq> Settled r) \<or> files m' fp = None"
  by (cases st rule: delivered.cases)
     (auto simp: fs_access_def fs_readFile_def fs_unlink_def record_call_def
       split: if_splits option.splits)

lemma pending_inv_step:
  assumes "pending_inv dirname fp m0 sv"
    and nd: "Access fp \<notin> denied m0" "ReadFile fp \<notin> denied m0" "Unlink fp \<notin> denied m0"
  shows "pending_inv dirname fp m0 (resume_nth dirname i sv)"
proof -
  obtain invs m where sv: "sv = (invs, m)" by (cases sv)
  have d: "denied m = denied m0"
    and p: "\<And>inv. files m fp \<noteq> None \<Longrightarrow> inv \<in> set invs \<Longrightarrow> filePath dirname (fst inv) = fp \<Longrightarrow>
        \<forall>r. snd inv \<noteq> Settled r"
    using assms(1) unfolding pending_inv_def sv by auto
  show ?thesis unfolding sv
  proof (cases dirname i invs m rule: resume_nth_cases)
    case idle
    then show "pending_inv dirname fp m0 (resume_nth dirname i (invs, m))"
      using assms(1) by (simp add: sv)
  next
    case (step k st st' m')
    have d': "denied m' = denied m0" using resume_denied[OF step(3)] d by simp
    have old: "(k, st) \<in> set invs" using step(1,2) nth_mem by metis
    have sh: "files m' fp \<noteq> None \<Longrightarrow> files m fp \<noteq> None"
      using resume_files_shrink[OF step(3), of fp] by auto
    have new: "files m' fp \<noteq> None \<Longrightarrow> filePath dirname k = fp \<Longrightarrow> \<forall>r. st' \<noteq> Settled r"
    proof -
      assume a: "files m' fp \<noteq> None" and b: "filePath dirname k = fp"
      have "\<forall>r. st \<noteq> Settled r" using p[OF sh[OF a] old] b by simp
      then show "\<forall>r. st' \<noteq> Settled r"
        using resume_progress[OF step(3)[unfolded b] sh[OF a]] nd d a by auto
    qed
    have "\<And>inv. files m' fp \<noteq> None \<Longrightarrow> inv \<in> set (invs[i := (k, st')]) \<Longrightarrow>
        filePath dirname (fst inv) = fp \<Longrightarrow> \<forall>r. snd inv \<noteq> Settled r"
    proof -
      fix inv
      assume a: "files m' fp \<noteq> None" and b: "inv \<in> set (invs[i := (k, st')])"
        and c: "filePath dirname (fst inv) = fp"
      from b have "inv = (k, st') \<or> inv \<in> set invs"
        using set_update_subset_insert[of invs i "(k, st')"] by auto
      then show "\<forall>r. snd inv \<noteq> Settled r"
        using new[OF a] p[OF sh[OF a], of inv] c by auto
    qed
    then show "pending_inv dirname fp m0 (resume_nth dirname i (invs, m))"
      using d' unfolding step(4) pending_inv_def by auto
  qed
qed

lemma pending_inv_run:
  "pending_inv dirname fp m0 sv \<Longrightarrow> Access fp \<notin> denied m0 \<Longrightarrow> ReadFile fp \<notin> denied m0 \<Longrightarrow>
   Unlink fp \<notin> denied m0 \<Longrightarrow> pending_inv dirname fp m0 (run dirname sched sv)"
  by (induction sched arbitrary: sv) (simp_all add: pending_inv_step)

lemma pending_inv_spawn: "pending_inv dirname fp m (spawn ids m)"
  by (auto simp: pending_inv_def spawn_def)

lemma resume_nth_ids: "map fst (fst (resume_nth dirname i sv)) = map fst (fst sv)"
proof -
  obtain invs m where sv: "sv = (invs, m)" by (cases sv)
  show ?thesis unfolding sv
  proof (cases dirname i invs m rule: resume_nth_cases)
    case idle
    then show "map fst (fst (resume_nth dirname i (invs, m))) = map fst (fst (invs, m))" by simp
  next
    case (step k st st' m')
    have "map fst (invs[i := (k, st')]) = (map fst invs)[i := k]" by (simp add: map_update)
    also have "\<dots> = map fst invs" using step(1,2) by (simp add: list_update_same_conv)
    finally show "map fst (fst (resume_nth dirname i (invs, m))) = map fst (fst (invs, m))"
      by (simp add: step(4))
  qed
qed

lemma run_ids: "map fst (fst (run dirname sched sv)) = map fst (fst sv)"
  by (induction sched arbitrary: sv) (simp_all add: resume_nth_ids)

text \<open>
  When the medium rejects no call on the file of a live entry, and every invocation has
  settled, exactly one of those that addressed the file has delivered.
\<close>

lemma single_delivery_complete:
  assumes "files m fp \<noteq> None"
    and nd: "Access fp \<notin> denied m" "ReadFile fp \<notin> denied m" "Unlink fp \<notin> denied m"
    and k: "k \<in> set ids" "filePath dirname k = fp"
    and fin: "\<forall>inv\<in>set (fst (run dirname sched (spawn ids m))). \<exists>r. snd inv = Settled r"
  shows "deliveries_of_file dirname fp (fst (run dirname sched (spawn ids m))) = 1"
proof -
  let ?sv = "run dirname sched (spawn ids m)"
  have "map fst (fst ?sv) = ids" by (simp add: run_ids) (simp add: spawn_def o_def)
  then have "k \<in> fst ` set (fst ?sv)" using k(1) by (metis set_map)
  then obtain inv where inv: "inv \<in> set (fst ?sv)" "fst inv = k" by auto
  then obtain r where "snd inv = Settled r" using fin by blast
  moreover have "pending_inv dirname fp m ?sv"
    by (rule pending_inv_run[OF pending_inv_spawn nd])
  ultimately have "files (snd ?sv) fp = None"
    using inv k(2) unfolding pending_inv_def by blast
  then have "live fp (snd ?sv) = 0" by (simp add: live_def)
  moreover have "live fp m = 1" using assms(1) by (simp add: live_def)
  ultimately show ?thesis
    using run_deliveries_of_file[of dirname fp sched ids m] by simp
qed

text \<open>
  An invocation settles with its third resumption at the latest, whatever happens to the
  medium in between.
\<close>

lemma resume_settles:
  "\<exists>r. fst (resume fp (fst (resume fp (fst (resume fp st m1)) m2)) m3) = Settled r"
  by (cases st rule: delivered.cases)
     (auto simp: fs_access_def fs_readFile_def fs_unlink_def split: if_splits option.splits)

end
